theory Spec2Isabelle
  imports Main
begin

section \<open>Data model of jogo.py\<close>

text \<open>
  A cell of the board holds Python's \<open>None\<close> or one of the two strings \<open>'X'\<close> and \<open>'O'\<close>:
  the only values ever assigned to a cell are \<open>mark\<close> (line 185) and
  \<open>'X' if mark == 'O' else 'O'\<close> (line 195). The board is a list of three row lists, built
  by \<open>[[None]*3 for _ in range(3)]\<close>, so the rows are three distinct lists and no two of
  them alias. \<open>MarkX\<close> is the string \<open>'X'\<close> and \<open>MarkO\<close> the string \<open>'O'\<close>.
\<close>

datatype mark = MarkX | MarkO

type_synonym cell = "mark option"

type_synonym board = "cell list list"

text \<open>
  \<open>check_winner\<close> returns \<open>line[0]\<close> (a mark), the string \<open>'Draw'\<close>, or \<open>None\<close>. The two
  non-\<open>None\<close> results are the constructors of \<open>outcome\<close>; \<open>None\<close> is the game in progress.
\<close>

datatype outcome = WonBy mark | Draw

datatype py_error = IndexError | SystemExit

subsection \<open>Python list indexing\<close>

text \<open>
  An index \<open>i\<close> into a list of length \<open>n\<close> is valid for \<open>-n \<le> i < n\<close>; a negative index
  counts from the end; anything else raises \<open>IndexError\<close>.
\<close>

definition py_index :: "nat \<Rightarrow> int \<Rightarrow> py_error + nat" where
  "py_index n i =
     (if 0 \<le> i \<and> i < int n then Inr (nat i)
      else if - int n \<le> i \<and> i < 0 then Inr (nat (int n + i))
      else Inl IndexError)"

definition getitem :: "'a list \<Rightarrow> int \<Rightarrow> py_error + 'a" where
  "getitem xs i = (case py_index (length xs) i of Inl e \<Rightarrow> Inl e | Inr k \<Rightarrow> Inr (xs ! k))"

definition setitem :: "'a list \<Rightarrow> int \<Rightarrow> 'a \<Rightarrow> py_error + 'a list" where
  "setitem xs i v = (case py_index (length xs) i of Inl e \<Rightarrow> Inl e | Inr k \<Rightarrow> Inr (xs[k := v]))"

text \<open>\<open>board[r][c]\<close>: the row is fetched first, then the cell.\<close>

definition cell_at :: "board \<Rightarrow> int \<Rightarrow> int \<Rightarrow> py_error + cell" where
  "cell_at b r c = (case getitem b r of Inl e \<Rightarrow> Inl e | Inr row \<Rightarrow> getitem row c)"

text \<open>\<open>board[r][c] = v\<close>: the row list is fetched and updated in place.\<close>

definition set_cell :: "board \<Rightarrow> int \<Rightarrow> int \<Rightarrow> cell \<Rightarrow> py_error + board" where
  "set_cell b r c v =
     (case py_index (length b) r of
        Inl e \<Rightarrow> Inl e
      | Inr k \<Rightarrow> (case setitem (b ! k) c v of
                    Inl e \<Rightarrow> Inl e
                  | Inr row \<Rightarrow> Inr (b[k := row])))"

text \<open>A list comprehension whose elements may raise: the first exception aborts it.\<close>

fun collect :: "('e + 'a) list \<Rightarrow> 'e + 'a list" where
  "collect [] = Inr []"
| "collect (x # xs) =
     (case x of
        Inl e \<Rightarrow> Inl e
      | Inr v \<Rightarrow> (case collect xs of Inl e \<Rightarrow> Inl e | Inr vs \<Rightarrow> Inr (v # vs)))"

section \<open>check_winner (lines 126-140)\<close>

text \<open>\<open>[board[r][c] for r in range(3)]\<close>, one column.\<close>

definition column :: "board \<Rightarrow> int \<Rightarrow> py_error + cell list" where
  "column b c = collect (map (\<lambda>r. cell_at b r c) [0, 1, 2])"

text \<open>
  The loop \<open>for line in lines: if line[0] and line.count(line[0]) == 3: return line[0]\<close>.
  \<open>Inr (Some m)\<close> is the return inside the loop, \<open>Inr None\<close> the loop running to its end.
\<close>

fun scan_lines :: "cell list list \<Rightarrow> py_error + mark option" where
  "scan_lines [] = Inr None"
| "scan_lines (line # rest) =
     (case getitem line 0 of
        Inl e \<Rightarrow> Inl e
      | Inr None \<Rightarrow> scan_lines rest
      | Inr (Some m) \<Rightarrow>
          if count_list line (Some m) = 3 then Inr (Some m) else scan_lines rest)"

definition check_winner :: "board \<Rightarrow> py_error + outcome option" where
  "check_winner b =
     (case collect (map (column b) [0, 1, 2]) of
        Inl e \<Rightarrow> Inl e
      | Inr cols \<Rightarrow>
     (case collect (map (\<lambda>i. cell_at b i i) [0, 1, 2]) of
        Inl e \<Rightarrow> Inl e
      | Inr diag1 \<Rightarrow>
     (case collect (map (\<lambda>i. cell_at b i (2 - i)) [0, 1, 2]) of
        Inl e \<Rightarrow> Inl e
      | Inr diag2 \<Rightarrow>
     (case scan_lines (b @ cols @ [diag1] @ [diag2]) of
        Inl e \<Rightarrow> Inl e
      | Inr (Some m) \<Rightarrow> Inr (Some (WonBy m))
      | Inr None \<Rightarrow>
          if list_all (list_all (\<lambda>cell. cell \<noteq> None)) b then Inr (Some Draw)
          else Inr None))))"

section \<open>The game loop (lines 142-207)\<close>

definition WIDTH :: int where
  "WIDTH = 600"

definition HEIGHT :: int where
  "HEIGHT = 600"

text \<open>
  The local variables of \<open>main\<close> that the loop reads and writes. \<open>sent\<close> is the sequence of
  values handed to \<open>net.send\<close> and accepted by the socket, oldest first.
\<close>

record game =
  board :: board
  winner :: "outcome option"
  is_my_turn :: bool
  mark :: mark
  running :: bool
  sent :: "(int \<times> int) list"

text \<open>
  An event of \<open>pygame.event.get()\<close>. \<open>MOUSEBUTTONDOWN x y\<close> carries the pair that
  \<open>pygame.mouse.get_pos()\<close> returns while the event is handled.
\<close>

datatype event = QUIT | MOUSEBUTTONDOWN int int | OTHER

text \<open>
  What one iteration of the loop reads from its environment: the pending events, whether
  \<open>conn.sendall\<close> succeeds in this iteration, and the value \<open>net.receive\<close> takes off the
  queue (\<open>None\<close> when the queue stays empty for the timeout). A value on the queue is the
  pair of integers the peer passed to \<open>net.send\<close>; a pair is a non-empty tuple and so is true
  in the test \<open>if data and ...\<close>.
\<close>

record tick_in =
  events :: "event list"
  sock_ok :: bool
  received :: "(int \<times> int) option"

text \<open>
  Lines 148-149 and 162-163, the state in which the loop starts once \<open>Network(...)\<close> has
  connected (a connection failure ends the process before the loop); \<open>server\<close> is
  \<open>args.server\<close>.
\<close>

definition init_game :: "bool \<Rightarrow> game" where
  "init_game server =
     \<lparr>board = replicate 3 (replicate 3 None), winner = None, is_my_turn = server,
      mark = (if server then MarkX else MarkO), running = True, sent = []\<rparr>"

text \<open>\<open>Network.send\<close> (lines 56-62): a socket error ends the process with \<open>sys.exit(1)\<close>.\<close>

definition net_send :: "bool \<Rightarrow> (int \<times> int) list \<Rightarrow> int \<times> int \<Rightarrow> py_error + (int \<times> int) list" where
  "net_send ok out d = (if ok then Inr (out @ [d]) else Inl SystemExit)"

text \<open>Line 195: \<open>'X' if mark == 'O' else 'O'\<close>.\<close>

definition opponent_mark :: "mark \<Rightarrow> mark" where
  "opponent_mark m = (if m = MarkO then MarkX else MarkO)"

text \<open>Lines 185-190, the body of \<open>if board[row][col] is None\<close>.\<close>

definition place_local :: "bool \<Rightarrow> game \<Rightarrow> int \<Rightarrow> int \<Rightarrow> py_error + game" where
  "place_local ok g row col =
     (case set_cell (board g) row col (Some (mark g)) of
        Inl e \<Rightarrow> Inl e
      | Inr b \<Rightarrow>
     (case net_send ok (sent g) (row, col) of
        Inl e \<Rightarrow> Inl e
      | Inr out \<Rightarrow>
     (case check_winner b of
        Inl e \<Rightarrow> Inl e
      | Inr w \<Rightarrow> Inr (g\<lparr>board := b, sent := out, is_my_turn := False, winner := w\<rparr>))))"

text \<open>Line 183: \<open>row, col = y // (HEIGHT//3), x // (WIDTH//3)\<close>, with Python's floor division.\<close>

definition click_cell :: "int \<Rightarrow> int \<Rightarrow> int \<times> int" where
  "click_cell x y = (y div (HEIGHT div 3), x div (WIDTH div 3))"

text \<open>Lines 181-190, the body of the \<open>if\<close> of line 180.\<close>

definition on_click :: "bool \<Rightarrow> game \<Rightarrow> int \<Rightarrow> int \<Rightarrow> py_error + game" where
  "on_click ok g x y =
     (if y < HEIGHT then
        (case click_cell x y of
           (row, col) \<Rightarrow>
             (case cell_at (board g) row col of
                Inl e \<Rightarrow> Inl e
              | Inr None \<Rightarrow> place_local ok g row col
              | Inr (Some m) \<Rightarrow> Inr g))
      else Inr g)"

text \<open>Lines 177-190, the body of the \<open>for event\<close> loop.\<close>

definition handle_event :: "bool \<Rightarrow> game \<Rightarrow> event \<Rightarrow> py_error + game" where
  "handle_event ok g ev =
     (case ev of
        QUIT \<Rightarrow> Inr (g\<lparr>running := False\<rparr>)
      | MOUSEBUTTONDOWN x y \<Rightarrow>
          if is_my_turn g \<and> winner g = None then on_click ok g x y else Inr g
      | OTHER \<Rightarrow> Inr g)"

fun handle_events :: "bool \<Rightarrow> game \<Rightarrow> event list \<Rightarrow> py_error + game" where
  "handle_events ok g [] = Inr g"
| "handle_events ok g (ev # evs) =
     (case handle_event ok g ev of Inl e \<Rightarrow> Inl e | Inr g' \<Rightarrow> handle_events ok g' evs)"

text \<open>Lines 193-199, given the value \<open>data\<close> that \<open>net.receive\<close> returned.\<close>

definition handle_data :: "game \<Rightarrow> (int \<times> int) option \<Rightarrow> py_error + game" where
  "handle_data g data =
     (case data of
        None \<Rightarrow> Inr g
      | Some (r, c) \<Rightarrow>
          if \<not> is_my_turn g \<and> winner g = None then
            (case set_cell (board g) r c (Some (opponent_mark (mark g))) of
               Inl e \<Rightarrow> Inl e
             | Inr b \<Rightarrow>
            (case check_winner b of
               Inl e \<Rightarrow> Inl e
             | Inr w \<Rightarrow> Inr (g\<lparr>board := b, is_my_turn := True, winner := w\<rparr>)))
          else Inr g)"

text \<open>One iteration of \<open>while running\<close> (lines 174-205); drawing changes no variable.\<close>

definition tick :: "game \<Rightarrow> tick_in \<Rightarrow> py_error + game" where
  "tick g t =
     (case handle_events (sock_ok t) g (events t) of
        Inl e \<Rightarrow> Inl e
      | Inr g' \<Rightarrow> handle_data g' (received t))"

text \<open>
  The loop \<open>while running\<close>, run on the inputs of its first iterations: it takes one
  \<open>tick_in\<close> per iteration and stops when \<open>running\<close> is false or an exception escapes.
\<close>

fun main_loop :: "game \<Rightarrow> tick_in list \<Rightarrow> py_error + game" where
  "main_loop g [] = Inr g"
| "main_loop g (t # ts) =
     (if running g then
        (case tick g t of Inl e \<Rightarrow> Inl e | Inr g' \<Rightarrow> main_loop g' ts)
      else Inr g)"

section \<open>Vocabulary of the specification\<close>

text \<open>The shape every board of the program has: three rows of three cells.\<close>

definition board3x3 :: "board \<Rightarrow> bool" where
  "board3x3 b = (length b = 3 \<and> list_all (\<lambda>row. length row = 3) b)"

text \<open>
  The eight lines of the grid as (row, column) coordinates: rows 0-2, columns 0-2, the main
  diagonal and the anti-diagonal, in the order the specification examines them.
\<close>

definition line_coords :: "(nat \<times> nat) list list" where
  "line_coords =
     [[(0, 0), (0, 1), (0, 2)], [(1, 0), (1, 1), (1, 2)], [(2, 0), (2, 1), (2, 2)],
      [(0, 0), (1, 0), (2, 0)], [(0, 1), (1, 1), (2, 1)], [(0, 2), (1, 2), (2, 2)],
      [(0, 0), (1, 1), (2, 2)], [(0, 2), (1, 1), (2, 0)]]"

definition line_cells :: "board \<Rightarrow> nat \<Rightarrow> cell list" where
  "line_cells b k = map (\<lambda>(r, c). b ! r ! c) (line_coords ! k)"

text \<open>A line is a win for mark \<open>m\<close> when all its cells equal \<open>m\<close>.\<close>

definition all_equal_to :: "mark \<Rightarrow> cell list \<Rightarrow> bool" where
  "all_equal_to m line = list_all (\<lambda>c. c = Some m) line"

definition is_win :: "cell list \<Rightarrow> bool" where
  "is_win line = (all_equal_to MarkX line \<or> all_equal_to MarkO line)"

text \<open>
  The mark that moves next: the local mark when \<open>is_my_turn\<close> holds, the peer's otherwise.
\<close>

definition turn_mark :: "game \<Rightarrow> mark" where
  "turn_mark g = (if is_my_turn g then mark g else opponent_mark (mark g))"

text \<open>
  The marks written to the board while the program runs, oldest first. A step writes a mark
  exactly when it changes \<open>is_my_turn\<close> (lemmas \<open>handle_event_step\<close> and
  \<open>handle_data_step\<close>), and the mark it writes is \<open>turn_mark\<close> of the state before.
\<close>

definition mark_placed :: "game \<Rightarrow> game \<Rightarrow> mark list" where
  "mark_placed g g' = (if is_my_turn g' = is_my_turn g then [] else [turn_mark g])"

fun marks_in_events :: "bool \<Rightarrow> game \<Rightarrow> event list \<Rightarrow> mark list" where
  "marks_in_events ok g [] = []"
| "marks_in_events ok g (ev # evs) =
     (case handle_event ok g ev of
        Inl e \<Rightarrow> []
      | Inr g' \<Rightarrow> mark_placed g g' @ marks_in_events ok g' evs)"

definition marks_in_tick :: "game \<Rightarrow> tick_in \<Rightarrow> mark list" where
  "marks_in_tick g t =
     marks_in_events (sock_ok t) g (events t) @
     (case handle_events (sock_ok t) g (events t) of
        Inl e \<Rightarrow> []
      | Inr g' \<Rightarrow> (case handle_data g' (received t) of Inl e \<Rightarrow> [] | Inr g'' \<Rightarrow> mark_placed g' g''))"

fun marks_in_loop :: "game \<Rightarrow> tick_in list \<Rightarrow> mark list" where
  "marks_in_loop g [] = []"
| "marks_in_loop g (t # ts) =
     (if running g then
        marks_in_tick g t @ (case tick g t of Inl e \<Rightarrow> [] | Inr g' \<Rightarrow> marks_in_loop g' ts)
      else [])"

text \<open>\<open>alternating m ps\<close>: the list \<open>ps\<close> is \<open>m\<close>, the other mark, \<open>m\<close>, and so on.\<close>

fun alternating :: "mark \<Rightarrow> mark list \<Rightarrow> bool" where
  "alternating m [] = True"
| "alternating m (p # ps) = (p = m \<and> alternating (opponent_mark m) ps)"

section \<open>Properties of check_winner\<close>

lemma board3x3_cases:
  assumes "board3x3 b"
  obtains a0 a1 a2 b0 b1 b2 c0 c1 c2 where "b = [[a0, a1, a2], [b0, b1, b2], [c0, c1, c2]]"
proof -
  from assms obtain r0 r1 r2 where b: "b = [r0, r1, r2]"
    by (auto simp: board3x3_def length_Suc_conv numeral_3_eq_3)
  with assms have "length r0 = 3" "length r1 = 3" "length r2 = 3"
    by (auto simp: board3x3_def)
  then obtain a0 a1 a2 b0 b1 b2 c0 c1 c2 where
    "r0 = [a0, a1, a2]" "r1 = [b0, b1, b2]" "r2 = [c0, c1, c2]"
    by (auto simp: length_Suc_conv numeral_3_eq_3)
  with b that show thesis by blast
qed

lemma getitem_simps [simp]:
  "getitem (x # xs) 0 = Inr x"
  "getitem (x # y # xs) 1 = Inr y"
  "getitem (x # y # z # xs) 2 = Inr z"
  "getitem [] i = Inl IndexError"
  by (auto simp: getitem_def py_index_def)

lemma check_winner_lines:
  "check_winner [[a0, a1, a2], [b0, b1, b2], [c0, c1, c2]] =
     (case scan_lines (map (line_cells [[a0, a1, a2], [b0, b1, b2], [c0, c1, c2]]) [0..<8]) of
        Inl e \<Rightarrow> Inl e
      | Inr (Some m) \<Rightarrow> Inr (Some (WonBy m))
      | Inr None \<Rightarrow>
          if list_all (list_all (\<lambda>cell. cell \<noteq> None)) [[a0, a1, a2], [b0, b1, b2], [c0, c1, c2]]
          then Inr (Some Draw) else Inr None)"
proof -
  have up: "[0..<8] = [0, 1, 2, 3, 4, 5, 6, 7]"
    by (simp add: upt_rec)
  show ?thesis
    unfolding check_winner_def column_def cell_at_def up
    by (simp add: line_cells_def line_coords_def)
qed

lemma line3_step:
  "scan_lines ([x, y, z] # rest) =
     (if is_win [x, y, z] then Inr x else scan_lines rest)"
proof -
  have "is_win [x, y, z] \<longleftrightarrow> (\<exists>m. x = Some m \<and> count_list [x, y, z] (Some m) = 3)"
    by (cases x; cases y; cases z) (auto simp: is_win_def all_equal_to_def intro: mark.exhaust)
  then show ?thesis
    by (cases x) auto
qed

lemma scan_lines_char:
  assumes "list_all (\<lambda>l. length l = 3) ls"
  shows "scan_lines ls =
           (case find is_win ls of None \<Rightarrow> Inr None | Some l \<Rightarrow> Inr (hd l))"
  using assms
proof (induction ls)
  case Nil
  then show ?case by simp
next
  case (Cons l ls)
  then obtain x y z where l: "l = [x, y, z]"
    by (auto simp: length_Suc_conv numeral_3_eq_3)
  with Cons show ?case by (simp add: line3_step del: scan_lines.simps)
qed


lemma win_hd:
  assumes "length l = 3"
  shows "all_equal_to m l \<longleftrightarrow> is_win l \<and> hd l = Some m"
proof -
  from assms obtain x y z where "l = [x, y, z]"
    by (auto simp: length_Suc_conv numeral_3_eq_3)
  then show ?thesis
    by (cases m) (auto simp: is_win_def all_equal_to_def)
qed

lemma scan_lines_Some:
  assumes "list_all (\<lambda>l. length l = 3) ls"
  shows "scan_lines ls = Inr (Some m) \<longleftrightarrow>
           (\<exists>k<length ls. all_equal_to m (ls ! k) \<and> (\<forall>j<k. \<not> is_win (ls ! j)))"
proof -
  have len: "length (ls ! k) = 3" if "k < length ls" for k
    using assms that by (simp add: list_all_length)
  have "scan_lines ls = Inr (Some m) \<longleftrightarrow> (\<exists>l. find is_win ls = Some l \<and> hd l = Some m)"
    by (simp add: scan_lines_char [OF assms] split: option.splits)
  also have "\<dots> \<longleftrightarrow> (\<exists>k<length ls. (is_win (ls ! k) \<and> hd (ls ! k) = Some m) \<and> (\<forall>j<k. \<not> is_win (ls ! j)))"
    by (auto simp: find_Some_iff)
  also have "\<dots> \<longleftrightarrow> (\<exists>k<length ls. all_equal_to m (ls ! k) \<and> (\<forall>j<k. \<not> is_win (ls ! j)))"
    using win_hd [OF len] by blast
  finally show ?thesis .
qed

lemma scan_lines_None:
  assumes "list_all (\<lambda>l. length l = 3) ls"
  shows "scan_lines ls = Inr None \<longleftrightarrow> (\<forall>k<length ls. \<not> is_win (ls ! k))"
proof -
  have "is_win l \<Longrightarrow> length l = 3 \<Longrightarrow> hd l \<noteq> None" for l
    by (auto simp: is_win_def all_equal_to_def length_Suc_conv numeral_3_eq_3)
  then have "find is_win ls = Some l \<Longrightarrow> hd l \<noteq> None" for l
    using assms by (auto simp: find_Some_iff list_all_length)
  then have "scan_lines ls = Inr None \<longleftrightarrow> find is_win ls = None"
    by (auto simp: scan_lines_char [OF assms] split: option.splits)
  then show ?thesis
    by (auto simp: find_None_iff in_set_conv_nth)
qed

lemma scan_lines_total:
  assumes "list_all (\<lambda>l. length l = 3) ls"
  shows "\<exists>r. scan_lines ls = Inr r"
  by (simp add: scan_lines_char [OF assms] split: option.splits)

lemma lines_len:
  "list_all (\<lambda>l. length l = 3) (map (line_cells b) [0..<8])"
proof -
  have up: "[0..<8] = [0, 1, 2, 3, 4, 5, 6, 7]"
    by (simp add: upt_rec)
  show ?thesis
    unfolding up by (simp add: line_cells_def line_coords_def)
qed

lemma full3x3:
  "list_all (list_all (\<lambda>cell. cell \<noteq> None)) [[a0, a1, a2], [b0, b1, b2], [c0, c1, c2]] \<longleftrightarrow>
     (\<forall>r<3. \<forall>c<3. [[a0, a1, a2], [b0, b1, b2], [c0, c1, c2]] ! r ! c \<noteq> None)"
  by (simp add: numeral_3_eq_3 All_less_Suc) blast

lemma check_winner_3x3:
  assumes "board3x3 b"
  shows "check_winner b =
     (case scan_lines (map (line_cells b) [0..<8]) of
        Inl e \<Rightarrow> Inl e
      | Inr (Some m) \<Rightarrow> Inr (Some (WonBy m))
      | Inr None \<Rightarrow> if (\<forall>r<3. \<forall>c<3. b ! r ! c \<noteq> None) then Inr (Some Draw) else Inr None)"
proof -
  from assms obtain a0 a1 a2 b0 b1 b2 c0 c1 c2
    where b: "b = [[a0, a1, a2], [b0, b1, b2], [c0, c1, c2]]"
    by (rule board3x3_cases)
  show ?thesis
    unfolding b check_winner_lines full3x3 ..
qed

lemma line_cells_0:
  "board3x3 b \<Longrightarrow> line_cells b 0 = b ! 0"
  by (erule board3x3_cases) (simp add: line_cells_def line_coords_def)

lemma check_winner_empty:
  "check_winner (replicate 3 (replicate 3 None)) = Inr None"
  by (simp add: check_winner_def column_def cell_at_def numeral_3_eq_3)

text \<open>
  Claim C4. On every 3x3 board \<open>check_winner\<close> raises nothing and returns: the mark \<open>m\<close>
  exactly when some line, in the order rows, columns, main diagonal, anti-diagonal, has its
  three cells equal to \<open>m\<close> and no earlier line is a win; \<open>'Draw'\<close> exactly when no line is
  a win and all nine cells are filled; \<open>None\<close> exactly when no line is a win and some cell
  is empty. In particular the empty board gives \<open>None\<close>, and a board whose row 0 holds
  three times the mark \<open>m\<close> is won by \<open>m\<close>.
\<close>

theorem check_winner_correct:
  assumes "board3x3 b"
  shows "(check_winner b = Inr (Some (WonBy m)) \<longleftrightarrow>
            (\<exists>k<8. all_equal_to m (line_cells b k) \<and> (\<forall>j<k. \<not> is_win (line_cells b j))))
       \<and> (check_winner b = Inr (Some Draw) \<longleftrightarrow>
            (\<forall>k<8. \<not> is_win (line_cells b k)) \<and> (\<forall>r<3. \<forall>c<3. b ! r ! c \<noteq> None))
       \<and> (check_winner b = Inr None \<longleftrightarrow>
            (\<forall>k<8. \<not> is_win (line_cells b k)) \<and> \<not> (\<forall>r<3. \<forall>c<3. b ! r ! c \<noteq> None))
       \<and> (\<exists>res. check_winner b = Inr res)
       \<and> check_winner (replicate 3 (replicate 3 None)) = Inr None
       \<and> (b ! 0 = [Some m, Some m, Some m] \<longrightarrow> check_winner b = Inr (Some (WonBy m)))"
proof -
  let ?ls = "map (line_cells b) [0..<8]"
  note cw = check_winner_3x3 [OF assms]
  have nth: "?ls ! k = line_cells b k" if "k < 8" for k
    using that by simp
  have S: "scan_lines ?ls = Inr (Some m) \<longleftrightarrow>
             (\<exists>k<8. all_equal_to m (line_cells b k) \<and> (\<forall>j<k. \<not> is_win (line_cells b j)))" for m
    using scan_lines_Some [OF lines_len, of b m] by (auto simp: nth)
  have N: "scan_lines ?ls = Inr None \<longleftrightarrow> (\<forall>k<8. \<not> is_win (line_cells b k))"
    using scan_lines_None [OF lines_len, of b] by (auto simp: nth)
  obtain r where r: "scan_lines ?ls = Inr r"
    using scan_lines_total [OF lines_len] by blast
  have main: "(check_winner b = Inr (Some (WonBy m)) \<longleftrightarrow>
            (\<exists>k<8. all_equal_to m (line_cells b k) \<and> (\<forall>j<k. \<not> is_win (line_cells b j))))
       \<and> (check_winner b = Inr (Some Draw) \<longleftrightarrow>
            (\<forall>k<8. \<not> is_win (line_cells b k)) \<and> (\<forall>r<3. \<forall>c<3. b ! r ! c \<noteq> None))
       \<and> (check_winner b = Inr None \<longleftrightarrow>
            (\<forall>k<8. \<not> is_win (line_cells b k)) \<and> \<not> (\<forall>r<3. \<forall>c<3. b ! r ! c \<noteq> None))
       \<and> (\<exists>res. check_winner b = Inr res)"
  proof (cases r)
    case None
    with r N S show ?thesis by (simp add: cw)
  next
    case (Some m')
    with r N S [of m'] S [of m] show ?thesis by (auto simp: cw)
  qed
  have row0: "check_winner b = Inr (Some (WonBy m))" if r0: "b ! 0 = [Some m, Some m, Some m]"
  proof -
    have "\<exists>k<8. all_equal_to m (line_cells b k) \<and> (\<forall>j<k. \<not> is_win (line_cells b j))"
      by (rule exI [of _ 0]) (simp add: line_cells_0 [OF assms] r0 all_equal_to_def)
    with main show ?thesis by blast
  qed
  from main row0 check_winner_empty show ?thesis by blast
qed

theorem check_winner_correct_witness:
  "board3x3 [[Some MarkX, Some MarkO, Some MarkX],
             [Some MarkX, Some MarkO, Some MarkO],
             [Some MarkO, Some MarkX, Some MarkX]]
   \<and> check_winner [[Some MarkX, Some MarkO, Some MarkX],
                    [Some MarkX, Some MarkO, Some MarkO],
                    [Some MarkO, Some MarkX, Some MarkX]] = Inr (Some Draw)
   \<and> \<not> (\<exists>k<8. is_win (line_cells [[Some MarkX, Some MarkO, Some MarkX],
                                       [Some MarkX, Some MarkO, Some MarkO],
                                       [Some MarkO, Some MarkX, Some MarkX]] k))"
proof -
  let ?b = "[[Some MarkX, Some MarkO, Some MarkX],
             [Some MarkX, Some MarkO, Some MarkO],
             [Some MarkO, Some MarkX, Some MarkX]]"
  have h: "board3x3 ?b"
    by (simp add: board3x3_def)
  have d: "check_winner ?b = Inr (Some Draw)"
    by (simp add: check_winner_def column_def cell_at_def)
  show ?thesis
    using h d check_winner_correct [OF h, of MarkX] by simp
qed

text \<open>
  Claim C10. The line test of \<open>check_winner\<close> skips every line whose first cell is empty,
  so a line of three empty cells is never a win: on a 3x3 board a reported winner \<open>m\<close>
  always comes with a line holding three times the mark \<open>m\<close>, and a board on which every
  line has an empty cell is won by nobody.
\<close>

theorem empty_line_never_wins:
  "scan_lines ((None # cells) # rest) = scan_lines rest
   \<and> (board3x3 b \<and> check_winner b = Inr (Some (WonBy m)) \<longrightarrow>
        (\<exists>k<8. line_cells b k = [Some m, Some m, Some m]))
   \<and> (board3x3 b \<and> (\<forall>k<8. None \<in> set (line_cells b k)) \<longrightarrow>
        (\<forall>m. check_winner b \<noteq> Inr (Some (WonBy m))))"
proof -
  have A: "\<exists>k<8. line_cells b k = [Some m, Some m, Some m]"
    if b: "board3x3 b" and w: "check_winner b = Inr (Some (WonBy m))" for m
  proof -
    have "scan_lines (map (line_cells b) [0..<8]) = Inr (Some m)"
      using w unfolding check_winner_3x3 [OF b]
      by (auto split: sum.splits option.splits if_splits)
    then obtain k where k: "k < 8" "all_equal_to m (map (line_cells b) [0..<8] ! k)"
      unfolding scan_lines_Some [OF lines_len] by auto
    have "length (line_cells b k) = 3"
      using lines_len [of b] k(1) by (simp add: list_all_length)
    then obtain x y z where "line_cells b k = [x, y, z]"
      by (auto simp: length_Suc_conv numeral_3_eq_3)
    with k show ?thesis
      by (auto simp: all_equal_to_def)
  qed
  have B: "check_winner b \<noteq> Inr (Some (WonBy m))"
    if b: "board3x3 b" and e: "\<forall>k<8. None \<in> set (line_cells b k)" for m
  proof
    assume "check_winner b = Inr (Some (WonBy m))"
    from A [OF b this] obtain k where "k < 8" "line_cells b k = [Some m, Some m, Some m]"
      by blast
    with e show False by auto
  qed
  show ?thesis
    using A B by (simp add: getitem_def py_index_def)
qed

theorem empty_line_never_wins_witness:
  "scan_lines ([None, None, None] # [[Some MarkO, Some MarkO, Some MarkO]]) = Inr (Some MarkO)
   \<and> board3x3 [[None, None, None], [Some MarkO, Some MarkO, Some MarkO], [None, None, None]]
   \<and> check_winner [[None, None, None], [Some MarkO, Some MarkO, Some MarkO], [None, None, None]]
       = Inr (Some (WonBy MarkO))
   \<and> (\<exists>k<8. line_cells [[None, None, None], [Some MarkO, Some MarkO, Some MarkO],
                          [None, None, None]] k = [Some MarkO, Some MarkO, Some MarkO])
   \<and> list_all (\<lambda>k. None \<in> set (line_cells (replicate 3 (replicate 3 None)) k)) [0..<8]
   \<and> check_winner (replicate 3 (replicate 3 None)) \<noteq> Inr (Some (WonBy MarkX))"
proof -
  let ?b = "[[None, None, None], [Some MarkO, Some MarkO, Some MarkO], [None, None, None]]"
  let ?e = "replicate 3 (replicate 3 None) :: board"
  have h: "board3x3 ?b"
    by (simp add: board3x3_def)
  have w: "check_winner ?b = Inr (Some (WonBy MarkO))"
    by (simp add: check_winner_def column_def cell_at_def)
  have he: "board3x3 ?e"
    by (simp add: board3x3_def numeral_3_eq_3)
  have up: "k < 8 \<longleftrightarrow> k \<in> set [0, 1, 2, 3, 4, 5, 6, 7]" for k :: nat
    by auto
  have ne: "\<forall>k<8. None \<in> set (line_cells ?e k)"
    unfolding up by (simp add: line_cells_def line_coords_def numeral_3_eq_3)
  have s: "scan_lines ([None, None, None] # [[Some MarkO, Some MarkO, Some MarkO]]) =
             scan_lines [[Some MarkO, Some MarkO, Some MarkO]]"
    using empty_line_never_wins [of "[None, None]" "[[Some MarkO, Some MarkO, Some MarkO]]"]
    by simp
  have s2: "scan_lines [[Some MarkO, Some MarkO, Some MarkO]] = Inr (Some MarkO)"
    by simp
  show ?thesis
    using h w he ne s s2 empty_line_never_wins [where b = ?b and m = MarkO]
      empty_line_never_wins [where b = ?e]
    by (simp add: list_all_iff)
qed

section \<open>Properties of the game loop\<close>

lemma py_index_Inr:
  "py_index n i = Inr k \<Longrightarrow> k < n"
  by (auto simp: py_index_def split: if_splits)

lemma py_index_in_range:
  "0 \<le> i \<Longrightarrow> i < int n \<Longrightarrow> py_index n i = Inr (nat i)"
  by (simp add: py_index_def)

lemma set_cell_board3x3:
  assumes "board3x3 b" and "set_cell b r c v = Inr b'"
  shows "board3x3 b'"
  using assms
  by (auto simp: set_cell_def setitem_def board3x3_def list_all_length nth_list_update
      split: sum.splits dest: py_index_Inr)

lemma cell_at_set_cell:
  assumes "cell_at b r c = Inr x"
  shows "\<exists>b'. set_cell b r c v = Inr b'"
  using assms
  by (auto simp: cell_at_def getitem_def set_cell_def setitem_def split: sum.splits)

lemma check_winner_total:
  assumes "board3x3 b"
  shows "\<exists>w. check_winner b = Inr w"
  using scan_lines_total [OF lines_len, of b]
  by (auto simp: check_winner_3x3 [OF assms] split: option.splits)

lemma click_cell_range:
  assumes "0 \<le> x" "x < WIDTH" "0 \<le> y" "y < HEIGHT"
  shows "0 \<le> fst (click_cell x y) \<and> fst (click_cell x y) \<le> 2
       \<and> 0 \<le> snd (click_cell x y) \<and> snd (click_cell x y) \<le> 2"
  using assms unfolding click_cell_def WIDTH_def HEIGHT_def by simp presburger

lemma cell_at_3x3:
  assumes "board3x3 b" "0 \<le> r" "r \<le> 2" "0 \<le> c" "c \<le> 2"
  shows "cell_at b r c = Inr (b ! nat r ! nat c)"
  using assms
  by (auto simp: cell_at_def getitem_def py_index_def board3x3_def list_all_length)

lemma handle_event_no_IndexError:
  assumes "board3x3 (board g)" "0 \<le> x" "x < WIDTH" "0 \<le> y" "y < HEIGHT"
  shows "handle_event ok g (MOUSEBUTTONDOWN x y) \<noteq> Inl IndexError"
proof -
  obtain row col where rc: "click_cell x y = (row, col)"
    by (cases "click_cell x y")
  with click_cell_range [OF assms(2-5)] have r: "0 \<le> row" "row \<le> 2" "0 \<le> col" "col \<le> 2"
    by simp_all
  note ca = cell_at_3x3 [OF assms(1) r]
  obtain b' where sc: "set_cell (board g) row col (Some (mark g)) = Inr b'"
    using cell_at_set_cell [OF ca] by blast
  obtain w where w: "check_winner b' = Inr w"
    using check_winner_total [OF set_cell_board3x3 [OF assms(1) sc]] by blast
  show ?thesis
    by (cases ok)
      (simp_all add: handle_event_def on_click_def rc ca place_local_def sc w net_send_def
        split: option.splits)
qed

lemma opponent_mark_twice [simp]:
  "opponent_mark (opponent_mark m) = m"
  by (cases m) (simp_all add: opponent_mark_def)

lemma place_local_step:
  assumes "place_local ok g row col = Inr g'"
  shows "\<not> is_my_turn g' \<and> mark g' = mark g \<and> running g' = running g
       \<and> set_cell (board g) row col (Some (mark g)) = Inr (board g')
       \<and> sent g' = sent g @ [(row, col)] \<and> check_winner (board g') = Inr (winner g')"
  using assms
  by (auto simp: place_local_def net_send_def split: sum.splits if_splits)

lemma handle_event_step:
  assumes "handle_event ok g ev = Inr g'"
  shows "(\<exists>r. g' = g\<lparr>running := r\<rparr>)
       \<or> (is_my_turn g \<and> \<not> is_my_turn g' \<and> mark g' = mark g \<and> winner g = None
          \<and> (\<exists>r c. cell_at (board g) r c = Inr None
                \<and> set_cell (board g) r c (Some (turn_mark g)) = Inr (board g')))"
proof (cases ev)
  case QUIT
  with assms show ?thesis by (auto simp: handle_event_def)
next
  case OTHER
  with assms have "g' = g\<lparr>running := running g\<rparr>" by (simp add: handle_event_def)
  then show ?thesis by blast
next
  case (MOUSEBUTTONDOWN x y)
  show ?thesis
  proof (cases "g' = g")
    case True
    then have "g' = g\<lparr>running := running g\<rparr>" by simp
    then show ?thesis by blast
  next
    case False
    with assms MOUSEBUTTONDOWN obtain row col where
      t: "is_my_turn g" "winner g = None" and
      c: "cell_at (board g) row col = Inr None" and
      p: "place_local ok g row col = Inr g'"
      by (auto simp: handle_event_def on_click_def split: if_splits prod.splits sum.splits option.splits)
    from place_local_step [OF p] t c show ?thesis
      by (auto simp: turn_mark_def)
  qed
qed

lemma handle_data_step:
  assumes "handle_data g d = Inr g'"
  shows "g' = g
       \<or> (\<not> is_my_turn g \<and> is_my_turn g' \<and> mark g' = mark g \<and> winner g = None
          \<and> running g' = running g \<and> sent g' = sent g
          \<and> (\<exists>r c. d = Some (r, c)
                \<and> set_cell (board g) r c (Some (turn_mark g)) = Inr (board g')))"
  using assms
  by (auto simp: handle_data_def turn_mark_def split: option.splits if_splits sum.splits)


lemma alternating_placed:
  assumes "mark g' = mark g"
  shows "alternating (turn_mark g) (mark_placed g g' @ rest) = alternating (turn_mark g') rest"
  using assms by (auto simp: mark_placed_def turn_mark_def)

lemma handle_event_mark:
  "handle_event ok g ev = Inr g' \<Longrightarrow> mark g' = mark g"
  by (drule handle_event_step) auto

lemma handle_data_mark:
  "handle_data g d = Inr g' \<Longrightarrow> mark g' = mark g"
  by (drule handle_data_step) auto

lemma alternating_events_rest:
  "handle_events ok g evs = Inr g' \<Longrightarrow>
     alternating (turn_mark g) (marks_in_events ok g evs @ rest) = alternating (turn_mark g') rest"
proof (induction evs arbitrary: g)
  case Nil
  then show ?case by simp
next
  case (Cons ev evs)
  then obtain g1 where g1: "handle_event ok g ev = Inr g1" and r: "handle_events ok g1 evs = Inr g'"
    by (auto split: sum.splits)
  show ?case
    using Cons.IH [OF r] alternating_placed [OF handle_event_mark [OF g1]]
    by (simp add: g1)
qed

lemma alternating_events:
  "alternating (turn_mark g) (marks_in_events ok g evs)"
proof (induction evs arbitrary: g)
  case Nil
  then show ?case by simp
next
  case (Cons ev evs)
  show ?case
  proof (cases "handle_event ok g ev")
    case (Inl e)
    then show ?thesis by simp
  next
    case (Inr g1)
    with Cons.IH [of g1] alternating_placed [OF handle_event_mark [OF Inr]]
    show ?thesis by simp
  qed
qed

lemma alternating_tick_rest:
  assumes "tick g t = Inr g'"
  shows "alternating (turn_mark g) (marks_in_tick g t @ rest) = alternating (turn_mark g') rest"
proof -
  from assms obtain g1 where
    g1: "handle_events (sock_ok t) g (events t) = Inr g1" and
    g2: "handle_data g1 (received t) = Inr g'"
    by (auto simp: tick_def split: sum.splits)
  show ?thesis
    using alternating_events_rest [OF g1] alternating_placed [OF handle_data_mark [OF g2]]
    by (simp add: marks_in_tick_def g1 g2)
qed

lemma alternating_tick:
  "alternating (turn_mark g) (marks_in_tick g t)"
proof (cases "handle_events (sock_ok t) g (events t)")
  case (Inl e)
  then show ?thesis
    by (simp add: marks_in_tick_def alternating_events)
next
  case (Inr g1)
  show ?thesis
  proof (cases "handle_data g1 (received t)")
    case (Inl e)
    with Inr show ?thesis
      by (simp add: marks_in_tick_def alternating_events)
  next
    case g2: (Inr g2)
    have "alternating (turn_mark g1) (mark_placed g1 g2)"
      using alternating_placed [OF handle_data_mark [OF g2], of "[]"] by simp
    with Inr g2 alternating_events_rest [OF Inr] show ?thesis
      by (simp add: marks_in_tick_def)
  qed
qed

lemma alternating_loop:
  "alternating (turn_mark g) (marks_in_loop g ts)"
proof (induction ts arbitrary: g)
  case Nil
  then show ?case by simp
next
  case (Cons t ts)
  show ?case
  proof (cases "tick g t")
    case (Inl e)
    then show ?thesis by (simp add: alternating_tick)
  next
    case (Inr g1)
    with Cons.IH [of g1] alternating_tick_rest [OF Inr] show ?thesis by simp
  qed
qed

lemma over_event:
  assumes "winner g \<noteq> None"
  shows "\<exists>r. handle_event ok g ev = Inr (g\<lparr>running := r\<rparr>)"
proof (cases ev)
  case QUIT
  then show ?thesis by (auto simp: handle_event_def)
next
  case (MOUSEBUTTONDOWN x y)
  with assms have "handle_event ok g ev = Inr (g\<lparr>running := running g\<rparr>)"
    by (auto simp: handle_event_def)
  then show ?thesis ..
next
  case OTHER
  then have "handle_event ok g ev = Inr (g\<lparr>running := running g\<rparr>)"
    by (simp add: handle_event_def)
  then show ?thesis ..
qed

lemma over_events:
  assumes "winner g \<noteq> None"
  shows "\<exists>r. handle_events ok g evs = Inr (g\<lparr>running := r\<rparr>)"
  using assms
proof (induction evs arbitrary: g)
  case Nil
  have "handle_events ok g [] = Inr (g\<lparr>running := running g\<rparr>)" by simp
  then show ?case ..
next
  case (Cons ev evs)
  from over_event [OF Cons.prems] obtain r where r: "handle_event ok g ev = Inr (g\<lparr>running := r\<rparr>)"
    by blast
  have "winner (g\<lparr>running := r\<rparr>) \<noteq> None"
    using Cons.prems by simp
  from Cons.IH [OF this] obtain r' where
    "handle_events ok (g\<lparr>running := r\<rparr>) evs = Inr (g\<lparr>running := r'\<rparr>)"
    by auto
  with r have "handle_events ok g (ev # evs) = Inr (g\<lparr>running := r'\<rparr>)"
    by simp
  then show ?case ..
qed

lemma over_data:
  assumes "winner g \<noteq> None"
  shows "handle_data g d = Inr g"
  using assms by (auto simp: handle_data_def split: option.splits)

lemma over_tick:
  assumes "winner g \<noteq> None"
  shows "\<exists>r. tick g t = Inr (g\<lparr>running := r\<rparr>)"
proof -
  from over_events [OF assms] obtain r where
    r: "handle_events (sock_ok t) g (events t) = Inr (g\<lparr>running := r\<rparr>)"
    by blast
  have "winner (g\<lparr>running := r\<rparr>) \<noteq> None"
    using assms by simp
  from over_data [OF this] r have "tick g t = Inr (g\<lparr>running := r\<rparr>)"
    by (simp add: tick_def)
  then show ?thesis ..
qed

lemma over_loop:
  assumes "winner g \<noteq> None"
  shows "\<exists>r. main_loop g ts = Inr (g\<lparr>running := r\<rparr>)"
  using assms
proof (induction ts arbitrary: g)
  case Nil
  have "main_loop g [] = Inr (g\<lparr>running := running g\<rparr>)" by simp
  then show ?case ..
next
  case (Cons t ts)
  show ?case
  proof (cases "running g")
    case False
    then have "main_loop g (t # ts) = Inr (g\<lparr>running := running g\<rparr>)" by simp
    then show ?thesis ..
  next
    case True
    from over_tick [OF Cons.prems] obtain r where r: "tick g t = Inr (g\<lparr>running := r\<rparr>)"
      by blast
    have "winner (g\<lparr>running := r\<rparr>) \<noteq> None"
      using Cons.prems by simp
    from Cons.IH [OF this] obtain r' where
      "main_loop (g\<lparr>running := r\<rparr>) ts = Inr (g\<lparr>running := r'\<rparr>)"
      by auto
    with r True have "main_loop g (t # ts) = Inr (g\<lparr>running := r'\<rparr>)"
      by simp
    then show ?thesis ..
  qed
qed

lemma set_cell_keeps_marks:
  assumes "set_cell b r c v = Inr b'" and "cell_at b r c = Inr None"
    and "cell_at b r' c' = Inr (Some m)"
  shows "cell_at b' r' c' = Inr (Some m)"
proof -
  from assms(1,2) obtain k j where
    k: "py_index (length b) r = Inr k" and j: "py_index (length (b ! k)) c = Inr j" and
    e: "b ! k ! j = None" and b': "b' = b[k := (b ! k)[j := v]]"
    by (auto simp: set_cell_def setitem_def cell_at_def getitem_def split: sum.splits)
  from assms(3) obtain k' j' where
    k': "py_index (length b) r' = Inr k'" and j': "py_index (length (b ! k')) c' = Inr j'" and
    m: "b ! k' ! j' = Some m"
    by (auto simp: cell_at_def getitem_def split: sum.splits)
  have lt: "k < length b" "k' < length b" "j' < length (b ! k')"
    using k k' j' by (auto dest: py_index_Inr)
  have len: "length (b' ! k') = length (b ! k')"
    using lt by (simp add: b' nth_list_update)
  have "k' = k \<Longrightarrow> j' \<noteq> j"
    using e m by auto
  then have val: "b' ! k' ! j' = Some m"
    using lt m by (auto simp: b' nth_list_update)
  show ?thesis
    using k' j' len val by (simp add: cell_at_def getitem_def b')
qed

lemma click_keeps_marks:
  assumes "handle_event ok g ev = Inr g'" and "cell_at (board g) r c = Inr (Some m)"
  shows "cell_at (board g') r c = Inr (Some m)"
  using handle_event_step [OF assms(1)]
proof
  assume "\<exists>q. g' = g\<lparr>running := q\<rparr>"
  with assms(2) show ?thesis by auto
next
  assume "is_my_turn g \<and> \<not> is_my_turn g' \<and> mark g' = mark g \<and> winner g = None
          \<and> (\<exists>r c. cell_at (board g) r c = Inr None
                \<and> set_cell (board g) r c (Some (turn_mark g)) = Inr (board g'))"
  then obtain r0 c0 where e: "cell_at (board g) r0 c0 = Inr None"
    and w: "set_cell (board g) r0 c0 (Some (turn_mark g)) = Inr (board g')"
    by blast
  show ?thesis
    by (rule set_cell_keeps_marks [OF w e assms(2)])
qed

text \<open>
  Every state the loop reaches from the initial one has a board of three rows of three
  cells, so the hypothesis \<open>board3x3\<close> of the theorems below holds on every run.
\<close>

lemma handle_event_board3x3:
  assumes "handle_event ok g ev = Inr g'" and "board3x3 (board g)"
  shows "board3x3 (board g')"
  using handle_event_step [OF assms(1)] assms(2)
  by (auto dest: set_cell_board3x3)

lemma handle_events_board3x3:
  "handle_events ok g evs = Inr g' \<Longrightarrow> board3x3 (board g) \<Longrightarrow> board3x3 (board g')"
proof (induction evs arbitrary: g)
  case Nil
  then show ?case by simp
next
  case (Cons ev evs)
  then obtain g1 where g1: "handle_event ok g ev = Inr g1" and r: "handle_events ok g1 evs = Inr g'"
    by (auto split: sum.splits)
  from Cons.IH [OF r handle_event_board3x3 [OF g1 Cons.prems(2)]] show ?case .
qed

lemma handle_data_board3x3:
  assumes "handle_data g d = Inr g'" and "board3x3 (board g)"
  shows "board3x3 (board g')"
  using handle_data_step [OF assms(1)] assms(2)
  by (auto dest: set_cell_board3x3)

lemma tick_board3x3:
  assumes "tick g t = Inr g'" and "board3x3 (board g)"
  shows "board3x3 (board g')"
proof -
  from assms(1) obtain g1 where
    g1: "handle_events (sock_ok t) g (events t) = Inr g1" and
    g2: "handle_data g1 (received t) = Inr g'"
    by (auto simp: tick_def split: sum.splits)
  from handle_data_board3x3 [OF g2 handle_events_board3x3 [OF g1 assms(2)]] show ?thesis .
qed

lemma main_loop_board3x3:
  "main_loop g ts = Inr g' \<Longrightarrow> board3x3 (board g) \<Longrightarrow> board3x3 (board g')"
proof (induction ts arbitrary: g)
  case Nil
  then show ?case by simp
next
  case (Cons t ts)
  show ?case
  proof (cases "running g")
    case False
    with Cons.prems show ?thesis by simp
  next
    case True
    with Cons.prems(1) obtain g1 where g1: "tick g t = Inr g1" and r: "main_loop g1 ts = Inr g'"
      by (auto split: sum.splits)
    from Cons.IH [OF r tick_board3x3 [OF g1 Cons.prems(2)]] show ?thesis .
  qed
qed

lemma reachable_board3x3:
  assumes "main_loop (init_game server) ts = Inr g"
  shows "board3x3 (board g)"
proof -
  have "board3x3 (board (init_game server))"
    by (simp add: init_game_def board3x3_def numeral_3_eq_3)
  from main_loop_board3x3 [OF assms this] show ?thesis .
qed

text \<open>
  Claim C1. A cell that holds a mark is never overwritten, on the click path and on the
  receive path. The click path keeps this (lemma \<open>click_keeps_marks\<close>); the receive path
  does not test the cell. The host clicks cell (0, 0), which takes \<open>'X'\<close>; the pair (0, 0)
  then arrives from the peer and the same cell becomes \<open>'O'\<close>.
\<close>

theorem received_move_overwrites_cell:
  "tick (init_game True) \<lparr>events = [MOUSEBUTTONDOWN 10 10], sock_ok = True, received = None\<rparr> =
     Inr \<lparr>board = [[Some MarkX, None, None], [None, None, None], [None, None, None]],
           winner = None, is_my_turn = False, mark = MarkX, running = True, sent = [(0, 0)]\<rparr>
   \<and> tick \<lparr>board = [[Some MarkX, None, None], [None, None, None], [None, None, None]],
           winner = None, is_my_turn = False, mark = MarkX, running = True, sent = [(0, 0)]\<rparr>
        \<lparr>events = [], sock_ok = True, received = Some (0, 0)\<rparr> =
     Inr \<lparr>board = [[Some MarkO, None, None], [None, None, None], [None, None, None]],
           winner = None, is_my_turn = True, mark = MarkX, running = True, sent = [(0, 0)]\<rparr>"
  by code_simp

text \<open>
  Claim C2. Every move applied to the board has its row and column in 0..2 and an empty
  target cell, and a received move with coordinates outside 0..2 neither changes the
  board nor raises. The receive path checks neither: with the joiner waiting on the empty
  board, the received pair (3, 0) raises \<open>IndexError\<close> out of the loop, and the received
  pair (-1, 0) is applied to row 2 through Python's negative indexing.
\<close>

theorem received_move_unchecked:
  "handle_data (init_game False) (Some (3, 0)) = Inl IndexError
   \<and> handle_data (init_game False) (Some (- 1, 0)) =
     Inr \<lparr>board = [[None, None, None], [None, None, None], [Some MarkX, None, None]],
           winner = None, is_my_turn = True, mark = MarkO, running = True, sent = []\<rparr>"
  by code_simp

text \<open>
  Claim C5. The host starts with the turn and the mark \<open>'X'\<close>, the joiner without the turn
  and with \<open>'O'\<close>, so the first mark to move is \<open>'X'\<close> on both sides. Handling an event or a
  received value either leaves board, turn and outcome as they are, or writes the mark whose
  turn it is into one cell and passes the turn to the other mark. In every run of the loop
  from the initial state, the marks written to the board are \<open>'X'\<close>, \<open>'O'\<close>, \<open>'X'\<close>, ...
  in this order.
\<close>

theorem turn_alternates:
  "is_my_turn (init_game True) \<and> mark (init_game True) = MarkX
   \<and> \<not> is_my_turn (init_game False) \<and> mark (init_game False) = MarkO
   \<and> turn_mark (init_game server) = MarkX
   \<and> (handle_event ok g ev = Inr g' \<longrightarrow>
        (\<exists>r. g' = g\<lparr>running := r\<rparr>)
        \<or> (is_my_turn g \<and> \<not> is_my_turn g' \<and> mark g' = mark g
           \<and> turn_mark g' = opponent_mark (turn_mark g)
           \<and> (\<exists>r c. set_cell (board g) r c (Some (turn_mark g)) = Inr (board g'))))
   \<and> (handle_data g d = Inr g' \<longrightarrow>
        g' = g
        \<or> (\<not> is_my_turn g \<and> is_my_turn g' \<and> mark g' = mark g
           \<and> turn_mark g' = opponent_mark (turn_mark g)
           \<and> (\<exists>r c. set_cell (board g) r c (Some (turn_mark g)) = Inr (board g'))))
   \<and> alternating MarkX (marks_in_loop (init_game server) ts)"
proof -
  have i: "turn_mark (init_game server) = MarkX"
    by (simp add: init_game_def turn_mark_def opponent_mark_def)
  have e: "(\<exists>r. g' = g\<lparr>running := r\<rparr>)
        \<or> (is_my_turn g \<and> \<not> is_my_turn g' \<and> mark g' = mark g
           \<and> turn_mark g' = opponent_mark (turn_mark g)
           \<and> (\<exists>r c. set_cell (board g) r c (Some (turn_mark g)) = Inr (board g')))"
    if "handle_event ok g ev = Inr g'"
  proof -
    from handle_event_step [OF that] show ?thesis
    proof
      assume "\<exists>r. g' = g\<lparr>running := r\<rparr>"
      then show ?thesis ..
    next
      assume s: "is_my_turn g \<and> \<not> is_my_turn g' \<and> mark g' = mark g \<and> winner g = None
          \<and> (\<exists>r c. cell_at (board g) r c = Inr None
                \<and> set_cell (board g) r c (Some (turn_mark g)) = Inr (board g'))"
      then have "turn_mark g' = opponent_mark (turn_mark g)"
        by (simp add: turn_mark_def)
      with s show ?thesis by blast
    qed
  qed
  have d: "g' = g
        \<or> (\<not> is_my_turn g \<and> is_my_turn g' \<and> mark g' = mark g
           \<and> turn_mark g' = opponent_mark (turn_mark g)
           \<and> (\<exists>r c. set_cell (board g) r c (Some (turn_mark g)) = Inr (board g')))"
    if "handle_data g d = Inr g'"
  proof -
    from handle_data_step [OF that] show ?thesis
    proof
      assume "g' = g"
      then show ?thesis ..
    next
      assume s: "\<not> is_my_turn g \<and> is_my_turn g' \<and> mark g' = mark g \<and> winner g = None
          \<and> running g' = running g \<and> sent g' = sent g
          \<and> (\<exists>r c. d = Some (r, c)
                \<and> set_cell (board g) r c (Some (turn_mark g)) = Inr (board g'))"
      then have "turn_mark g' = opponent_mark (turn_mark g)"
        by (simp add: turn_mark_def)
      with s show ?thesis by blast
    qed
  qed
  have a: "alternating MarkX (marks_in_loop (init_game server) ts)"
    using alternating_loop [of "init_game server" ts] by (simp add: i)
  show ?thesis
    using i e d a by (simp add: init_game_def)
qed


theorem turn_alternates_witness:
  "handle_event True (init_game True) (MOUSEBUTTONDOWN 10 10) =
     Inr \<lparr>board = [[Some MarkX, None, None], [None, None, None], [None, None, None]],
           winner = None, is_my_turn = False, mark = MarkX, running = True, sent = [(0, 0)]\<rparr>
   \<and> turn_mark \<lparr>board = [[Some MarkX, None, None], [None, None, None], [None, None, None]],
           winner = None, is_my_turn = False, mark = MarkX, running = True, sent = [(0, 0)]\<rparr>
       = opponent_mark (turn_mark (init_game True))
   \<and> handle_data \<lparr>board = [[Some MarkX, None, None], [None, None, None], [None, None, None]],
           winner = None, is_my_turn = False, mark = MarkX, running = True, sent = [(0, 0)]\<rparr>
         (Some (1, 1)) =
     Inr \<lparr>board = [[Some MarkX, None, None], [None, Some MarkO, None], [None, None, None]],
           winner = None, is_my_turn = True, mark = MarkX, running = True, sent = [(0, 0)]\<rparr>
   \<and> turn_mark \<lparr>board = [[Some MarkX, None, None], [None, Some MarkO, None], [None, None, None]],
           winner = None, is_my_turn = True, mark = MarkX, running = True, sent = [(0, 0)]\<rparr>
       = MarkX
   \<and> marks_in_loop (init_game True)
         [\<lparr>events = [MOUSEBUTTONDOWN 10 10], sock_ok = True, received = Some (1, 1)\<rparr>,
          \<lparr>events = [MOUSEBUTTONDOWN 250 10], sock_ok = True, received = None\<rparr>]
       = [MarkX, MarkO, MarkX]
   \<and> alternating MarkX (marks_in_loop (init_game True)
         [\<lparr>events = [MOUSEBUTTONDOWN 10 10], sock_ok = True, received = Some (1, 1)\<rparr>,
          \<lparr>events = [MOUSEBUTTONDOWN 250 10], sock_ok = True, received = None\<rparr>])"
proof -
  let ?g1 = "\<lparr>board = [[Some MarkX, None, None], [None, None, None], [None, None, None]],
           winner = None, is_my_turn = False, mark = MarkX, running = True, sent = [(0, 0)]\<rparr>"
  let ?g2 = "\<lparr>board = [[Some MarkX, None, None], [None, Some MarkO, None], [None, None, None]],
           winner = None, is_my_turn = True, mark = MarkX, running = True, sent = [(0, 0)]\<rparr>"
  let ?ts = "[\<lparr>events = [MOUSEBUTTONDOWN 10 10], sock_ok = True, received = Some (1, 1)\<rparr>,
          \<lparr>events = [MOUSEBUTTONDOWN 250 10], sock_ok = True, received = None\<rparr>]"
  have e: "handle_event True (init_game True) (MOUSEBUTTONDOWN 10 10) = Inr ?g1"
    by code_simp
  have d: "handle_data ?g1 (Some (1, 1)) = Inr ?g2"
    by code_simp
  have m: "marks_in_loop (init_game True) ?ts = [MarkX, MarkO, MarkX]"
    by code_simp
  have n1: "\<not> (\<exists>r. ?g1 = (init_game True)\<lparr>running := r\<rparr>)"
    by (simp add: init_game_def)
  have n2: "?g2 \<noteq> ?g1"
    by simp
  from e n1 turn_alternates [of True True "init_game True" "MOUSEBUTTONDOWN 10 10" ?g1]
  have t1: "turn_mark ?g1 = opponent_mark (turn_mark (init_game True))"
    by blast
  from d n2 turn_alternates [of True True ?g1 QUIT ?g2 "Some (1, 1)"]
  have "turn_mark ?g2 = opponent_mark (turn_mark ?g1)"
    by blast
  with t1 turn_alternates [of True] have t2: "turn_mark ?g2 = MarkX"
    by simp
  from turn_alternates [of True True "init_game True" QUIT ?g1 None ?ts]
  have a: "alternating MarkX (marks_in_loop (init_game True) ?ts)"
    by blast
  from e t1 d t2 m a show ?thesis
    by blast
qed

text \<open>
  Claim C6. Once \<open>winner\<close> is not \<open>None\<close>, no event and no received value changes the
  board, the outcome, the turn or what was sent, and neither raises; the same holds for any
  number of iterations of the loop.
\<close>

theorem game_over_is_final:
  assumes "winner g \<noteq> None"
  shows "(\<exists>g'. handle_event ok g ev = Inr g' \<and> board g' = board g \<and> winner g' = winner g
            \<and> is_my_turn g' = is_my_turn g \<and> sent g' = sent g)
       \<and> handle_data g d = Inr g
       \<and> (\<exists>g'. main_loop g ts = Inr g' \<and> board g' = board g \<and> winner g' = winner g
            \<and> is_my_turn g' = is_my_turn g \<and> sent g' = sent g)"
proof -
  from over_event [OF assms] obtain r where "handle_event ok g ev = Inr (g\<lparr>running := r\<rparr>)"
    by blast
  moreover from over_loop [OF assms] obtain r' where "main_loop g ts = Inr (g\<lparr>running := r'\<rparr>)"
    by blast
  ultimately show ?thesis
    using over_data [OF assms] by simp
qed

theorem game_over_is_final_witness:
  "winner \<lparr>board = [[Some MarkX, Some MarkX, Some MarkX], [Some MarkO, Some MarkO, None],
                     [None, None, None]],
           winner = Some (WonBy MarkX), is_my_turn = False, mark = MarkX, running = True,
           sent = [(0, 0), (0, 1), (0, 2)]\<rparr> \<noteq> None
   \<and> handle_data \<lparr>board = [[Some MarkX, Some MarkX, Some MarkX], [Some MarkO, Some MarkO, None],
                           [None, None, None]],
           winner = Some (WonBy MarkX), is_my_turn = False, mark = MarkX, running = True,
           sent = [(0, 0), (0, 1), (0, 2)]\<rparr> (Some (1, 2)) =
       Inr \<lparr>board = [[Some MarkX, Some MarkX, Some MarkX], [Some MarkO, Some MarkO, None],
                      [None, None, None]],
           winner = Some (WonBy MarkX), is_my_turn = False, mark = MarkX, running = True,
           sent = [(0, 0), (0, 1), (0, 2)]\<rparr>
   \<and> (\<exists>g'. main_loop \<lparr>board = [[Some MarkX, Some MarkX, Some MarkX],
                                 [Some MarkO, Some MarkO, None], [None, None, None]],
           winner = Some (WonBy MarkX), is_my_turn = False, mark = MarkX, running = True,
           sent = [(0, 0), (0, 1), (0, 2)]\<rparr>
           [\<lparr>events = [MOUSEBUTTONDOWN 500 500], sock_ok = True, received = Some (1, 2)\<rparr>]
           = Inr g'
         \<and> board g' = [[Some MarkX, Some MarkX, Some MarkX], [Some MarkO, Some MarkO, None],
                        [None, None, None]]
         \<and> winner g' = Some (WonBy MarkX))"
proof -
  let ?g = "\<lparr>board = [[Some MarkX, Some MarkX, Some MarkX], [Some MarkO, Some MarkO, None],
                     [None, None, None]],
           winner = Some (WonBy MarkX), is_my_turn = False, mark = MarkX, running = True,
           sent = [(0, 0), (0, 1), (0, 2)]\<rparr>"
  have h: "winner ?g \<noteq> None"
    by simp
  note t = game_over_is_final [OF h, of True QUIT "Some (1, 2)"
        "[\<lparr>events = [MOUSEBUTTONDOWN 500 500], sock_ok = True, received = Some (1, 2)\<rparr>]"]
  from t have d: "handle_data ?g (Some (1, 2)) = Inr ?g"
    by blast
  from t obtain g' where "main_loop ?g
      [\<lparr>events = [MOUSEBUTTONDOWN 500 500], sock_ok = True, received = Some (1, 2)\<rparr>] = Inr g'"
    "board g' = board ?g" "winner g' = winner ?g"
    by blast
  then have "\<exists>g'. main_loop ?g
      [\<lparr>events = [MOUSEBUTTONDOWN 500 500], sock_ok = True, received = Some (1, 2)\<rparr>] = Inr g'
      \<and> board g' = [[Some MarkX, Some MarkX, Some MarkX], [Some MarkO, Some MarkO, None],
                        [None, None, None]]
      \<and> winner g' = Some (WonBy MarkX)"
    by (intro exI [of _ g']) simp
  with h d show ?thesis
    by blast
qed

text \<open>
  Claim C7. When it is the local player's turn, the game is in progress, and a click below
  \<open>HEIGHT\<close> maps to the cell (row, col), which is empty, the loop writes the local mark
  there, hands exactly the pair (row, col) to \<open>net.send\<close>, clears \<open>is_my_turn\<close> and stores
  the outcome \<open>check_winner\<close> computes for the new board. If the socket refuses the packet,
  \<open>net.send\<close> ends the process instead.
\<close>

theorem local_move_is_sent:
  assumes "board3x3 (board g)" and "is_my_turn g" and "winner g = None" and "y < HEIGHT"
    and "click_cell x y = (row, col)" and "cell_at (board g) row col = Inr None"
  shows "\<exists>b' w. set_cell (board g) row col (Some (mark g)) = Inr b' \<and> check_winner b' = Inr w
           \<and> handle_event ok g (MOUSEBUTTONDOWN x y) =
               (if ok then
                  Inr (g\<lparr>board := b', sent := sent g @ [(row, col)], is_my_turn := False,
                         winner := w\<rparr>)
                else Inl SystemExit)"
proof -
  obtain b' where sc: "set_cell (board g) row col (Some (mark g)) = Inr b'"
    using cell_at_set_cell [OF assms(6)] by blast
  obtain w where w: "check_winner b' = Inr w"
    using check_winner_total [OF set_cell_board3x3 [OF assms(1) sc]] by blast
  have "handle_event ok g (MOUSEBUTTONDOWN x y) =
               (if ok then
                  Inr (g\<lparr>board := b', sent := sent g @ [(row, col)], is_my_turn := False,
                         winner := w\<rparr>)
                else Inl SystemExit)"
    using assms(2-6)
    by (simp add: handle_event_def on_click_def place_local_def sc w net_send_def)
  with sc w show ?thesis by blast
qed

theorem local_move_is_sent_witness:
  "board3x3 (board (init_game True)) \<and> is_my_turn (init_game True)
   \<and> winner (init_game True) = None \<and> 250 < HEIGHT \<and> click_cell 10 250 = (1, 0)
   \<and> cell_at (board (init_game True)) 1 0 = Inr None
   \<and> handle_event True (init_game True) (MOUSEBUTTONDOWN 10 250) =
       Inr \<lparr>board = [[None, None, None], [Some MarkX, None, None], [None, None, None]],
             winner = None, is_my_turn = False, mark = MarkX, running = True,
             sent = [(1, 0)]\<rparr>"
proof -
  have h: "board3x3 (board (init_game True))" "is_my_turn (init_game True)"
    "winner (init_game True) = None" "250 < HEIGHT" "click_cell 10 250 = (1, 0)"
    "cell_at (board (init_game True)) 1 0 = Inr None"
    by (simp_all add: init_game_def board3x3_def numeral_3_eq_3 HEIGHT_def WIDTH_def
        click_cell_def cell_at_def)
  have sc: "set_cell (board (init_game True)) 1 0 (Some (mark (init_game True))) =
              Inr [[None, None, None], [Some MarkX, None, None], [None, None, None]]"
    by (simp add: init_game_def numeral_3_eq_3 set_cell_def setitem_def py_index_def)
  have cw: "check_winner [[None, None, None], [Some MarkX, None, None], [None, None, None]] =
              Inr None"
    by (simp add: check_winner_def column_def cell_at_def)
  from local_move_is_sent [OF h, of True] sc cw
  have "handle_event True (init_game True) (MOUSEBUTTONDOWN 10 250) =
          Inr ((init_game True)\<lparr>board := [[None, None, None], [Some MarkX, None, None],
                                              [None, None, None]],
                 sent := sent (init_game True) @ [(1, 0)], is_my_turn := False,
                 winner := None\<rparr>)"
    by auto
  with h show ?thesis
    by (simp add: init_game_def)
qed

text \<open>
  Claim C9. A click with \<open>y \<ge> HEIGHT\<close> changes nothing. A click with \<open>0 \<le> x < WIDTH\<close> and
  \<open>0 \<le> y < HEIGHT\<close> maps to a row and a column in 0..2, and on a 3x3 board handling it
  never raises \<open>IndexError\<close>.
\<close>

theorem click_never_out_of_bounds:
  "(HEIGHT \<le> y \<longrightarrow> handle_event ok g (MOUSEBUTTONDOWN x y) = Inr g)
   \<and> (0 \<le> x \<and> x < WIDTH \<and> 0 \<le> y \<and> y < HEIGHT \<longrightarrow>
        0 \<le> fst (click_cell x y) \<and> fst (click_cell x y) \<le> 2
        \<and> 0 \<le> snd (click_cell x y) \<and> snd (click_cell x y) \<le> 2)
   \<and> (board3x3 (board g) \<and> 0 \<le> x \<and> x < WIDTH \<and> 0 \<le> y \<and> y < HEIGHT \<longrightarrow>
        handle_event ok g (MOUSEBUTTONDOWN x y) \<noteq> Inl IndexError)"
proof -
  have "handle_event ok g (MOUSEBUTTONDOWN x y) = Inr g" if "HEIGHT \<le> y"
    using that by (simp add: handle_event_def on_click_def)
  then show ?thesis
    using click_cell_range [of x y] handle_event_no_IndexError [of g x y ok] by blast
qed

theorem click_never_out_of_bounds_witness:
  "HEIGHT \<le> 620
   \<and> handle_event True (init_game True) (MOUSEBUTTONDOWN 10 620) = Inr (init_game True)
   \<and> (0::int) \<le> 599 \<and> 599 < WIDTH \<and> 599 < HEIGHT
   \<and> click_cell 599 599 = (2, 2)
   \<and> board3x3 (board (init_game True))
   \<and> handle_event True (init_game True) (MOUSEBUTTONDOWN 599 599) \<noteq> Inl IndexError"
proof -
  have a: "HEIGHT \<le> 620" "(0::int) \<le> 599" "599 < WIDTH" "599 < HEIGHT"
    by (simp_all add: WIDTH_def HEIGHT_def)
  have b: "board3x3 (board (init_game True))"
    by (simp add: init_game_def board3x3_def numeral_3_eq_3)
  have c: "click_cell 599 599 = (2, 2)"
    by (simp add: click_cell_def WIDTH_def HEIGHT_def)
  show ?thesis
    using a b c click_never_out_of_bounds [of 620 True "init_game True" 10]
      click_never_out_of_bounds [of 599 True "init_game True" 599]
    by simp
qed

end
